theory Spec2Isabelle
  imports
    Main
    "HOL-Library.Word"
    "HOL-Library.AList"
    "HOL-Library.Char_ord"
    "HOL-Library.List_Lexorder"
begin

section \<open>The checkpoint package of winlogbeat\<close>

text \<open>
  A shallow embedding of \<^verbatim>\<open>winlogbeat/checkpoint/checkpoint.go\<close>. The package keeps,
  for every event log, the last record number read, and persists that table as YAML
  through a temporary file that is renamed over the target.

  What the Go code leaves to its environment is made explicit:
  \<^item> the file system, the clock and the logger are a \<open>world\<close> value that every
    operation takes and returns;
  \<^item> an operating-system call that may fail takes the failure as an argument
    (\<open>flush_fault\<close>, \<open>read_fault\<close>), so every error branch of the source is a branch
    of the model;
  \<^item> the YAML library (\<^verbatim>\<open>gopkg.in/yaml.v2\<close>) is not part of the package: it is a
    parameter, a \<open>codec\<close>, with one function for \<^verbatim>\<open>yaml.Marshal\<close> and one for
    \<^verbatim>\<open>yaml.Unmarshal\<close>;
  \<^item> the worker goroutine is a function of the sequence of \<^verbatim>\<open>select\<close> cases it
    takes, one \<open>event\<close> for each pass of its loop.
\<close>

subsection \<open>Data\<close>

text \<open>Go's \<^verbatim>\<open>int\<close> and \<^verbatim>\<open>time.Duration\<close> (64-bit targets) are signed 64-bit words,
  \<^verbatim>\<open>uint32\<close> is a 32-bit word, \<^verbatim>\<open>[]byte\<close> is a list of characters (an Isabelle
  \<open>char\<close> is one byte). A \<^verbatim>\<open>time.Time\<close> is an instant, counted in nanoseconds from
  the zero time.\<close>

type_synonym go_int = "64 word"
type_synonym duration = "64 word"
type_synonym uint32 = "32 word"
type_synonym bytes = "char list"
type_synonym time = int

definition Second :: duration where
  "Second = 1000000000"

record EventLogState =
  Name :: string
  RecordNumber :: uint32
  Timestamp :: time

record PersistedState =
  UpdateTime :: time
  States :: "EventLogState list"

text \<open>The zero values Go gives to a missing map entry and to a fresh struct.\<close>

definition zero_EventLogState :: EventLogState where
  "zero_EventLogState = \<lparr>Name = [], RecordNumber = 0, Timestamp = 0\<rparr>"

definition zero_PersistedState :: PersistedState where
  "zero_PersistedState = \<lparr>UpdateTime = 0, States = []\<rparr>"

text \<open>The struct \<^verbatim>\<open>Checkpoint\<close>. The map \<^verbatim>\<open>states\<close> is an association list, read
  with \<open>map_of\<close> and written with \<open>AList.update\<close>; \<^verbatim>\<open>sort\<close> is \<open>sort_buf\<close>;
  the channel \<^verbatim>\<open>done\<close> is the flag \<open>done_closed\<close>, \<^verbatim>\<open>sync.Once\<close> is the flag
  \<open>once_done\<close>, and the wait group is its counter \<open>wg\<close>. The channel \<^verbatim>\<open>save\<close>
  is the stream of \<open>Save\<close> events below.\<close>

record Checkpoint =
  wg :: nat
  done_closed :: bool
  once_done :: bool
  "file" :: string
  numUpdates :: go_int
  maxUpdates :: go_int
  flushInterval :: duration
  sort_buf :: "string list"
  states :: "(string \<times> EventLogState) list"

text \<open>The errors of the \<^verbatim>\<open>os\<close> package that the code tells apart, with
  \<^verbatim>\<open>os.IsNotExist\<close>.\<close>

datatype os_error = ErrNotExist | ErrOther

definition os_IsNotExist :: "os_error \<Rightarrow> bool" where
  "os_IsNotExist err = (err = ErrNotExist)"

text \<open>The errors that \<^verbatim>\<open>flush\<close> and \<^verbatim>\<open>read\<close> return: the three messages that
  \<^verbatim>\<open>flush\<close> formats, with the name of the temporary file, and the errors of
  \<^verbatim>\<open>os.Rename\<close>, \<^verbatim>\<open>ioutil.ReadFile\<close> and \<^verbatim>\<open>yaml.Unmarshal\<close>, returned as they
  are.\<close>

datatype error =
    CouldNotOpen string
  | CouldNotMarshal
  | CouldNotWrite string
  | RenameFailed string string
  | ReadFailed os_error
  | UnmarshalFailed

datatype fs_op =
    OpCreate string
  | OpWrite string bytes
  | OpClose string
  | OpRename string string

datatype log_line = LogErr error | LogDebug go_int

record world =
  files :: "string \<rightharpoonup> bytes"
  mtime :: "string \<rightharpoonup> time"
  clock :: time
  fs_trace :: "fs_op list"
  logs :: "log_line list"

record codec =
  Marshal :: "PersistedState \<Rightarrow> bytes option"
  Unmarshal :: "bytes \<Rightarrow> PersistedState option"

text \<open>The step of \<^verbatim>\<open>flush\<close> at which the operating system fails, if any.
  \<open>WriteFails n\<close>: the write fails after \<open>n\<close> bytes have reached the file.\<close>

datatype flush_fault = NoFault | CreateFails | WriteFails nat | RenameFails

subsection \<open>Operating-system calls\<close>

text \<open>\<^verbatim>\<open>os.Create\<close>: the file exists afterwards and is empty.\<close>

definition os_Create :: "string \<Rightarrow> world \<Rightarrow> world" where
  "os_Create p w = w\<lparr>files := (files w)(p \<mapsto> []),
                     mtime := (mtime w)(p \<mapsto> clock w),
                     fs_trace := fs_trace w @ [OpCreate p]\<rparr>"

text \<open>A failed \<^verbatim>\<open>os.Create\<close> leaves the files as they are.\<close>

definition os_Create_failed :: "string \<Rightarrow> world \<Rightarrow> world" where
  "os_Create_failed p w = w\<lparr>fs_trace := fs_trace w @ [OpCreate p]\<rparr>"

text \<open>\<^verbatim>\<open>file.Write\<close> on the file just created: the bytes that reached the file are
  its contents.\<close>

definition file_Write :: "string \<Rightarrow> bytes \<Rightarrow> world \<Rightarrow> world" where
  "file_Write p d w = w\<lparr>files := (files w)(p \<mapsto> d),
                        mtime := (mtime w)(p \<mapsto> clock w),
                        fs_trace := fs_trace w @ [OpWrite p d]\<rparr>"

definition file_Close :: "string \<Rightarrow> world \<Rightarrow> world" where
  "file_Close p w = w\<lparr>fs_trace := fs_trace w @ [OpClose p]\<rparr>"

text \<open>\<^verbatim>\<open>os.Rename\<close>: the new path takes the contents and the modification time of the
  old one, which is gone.\<close>

definition os_Rename :: "string \<Rightarrow> string \<Rightarrow> world \<Rightarrow> world" where
  "os_Rename p q w = w\<lparr>files := (files w)(q := files w p, p := None),
                       mtime := (mtime w)(q := mtime w p, p := None),
                       fs_trace := fs_trace w @ [OpRename p q]\<rparr>"

definition os_Rename_failed :: "string \<Rightarrow> string \<Rightarrow> world \<Rightarrow> world" where
  "os_Rename_failed p q w = w\<lparr>fs_trace := fs_trace w @ [OpRename p q]\<rparr>"

definition logp_Err :: "error \<Rightarrow> world \<Rightarrow> world" where
  "logp_Err e w = w\<lparr>logs := logs w @ [LogErr e]\<rparr>"

definition logp_Debug :: "go_int \<Rightarrow> world \<Rightarrow> world" where
  "logp_Debug n w = w\<lparr>logs := logs w @ [LogDebug n]\<rparr>"

text \<open>\<^verbatim>\<open>ioutil.ReadFile\<close>. \<open>read_fault\<close> says that the call fails with an error
  that \<^verbatim>\<open>os.IsNotExist\<close> does not recognise (no permission, a path through something
  that is not a directory, an input error), whether a file is at the path or not.
  Without such a fault, a path with no file gives the error that \<^verbatim>\<open>os.IsNotExist\<close>
  recognises, and a file gives its contents. Reading changes nothing.\<close>

definition ioutil_ReadFile :: "bool \<Rightarrow> string \<Rightarrow> world \<Rightarrow> os_error + bytes" where
  "ioutil_ReadFile read_fault p w =
     (if read_fault then Inl ErrOther
      else case files w p of
             None \<Rightarrow> Inl ErrNotExist
           | Some contents \<Rightarrow> Inr contents)"

subsection \<open>The map of states\<close>

text \<open>\<^verbatim>\<open>c.states[name]\<close>: a missing key reads as the zero value.\<close>

definition states_at :: "(string \<times> EventLogState) list \<Rightarrow> string \<Rightarrow> EventLogState" where
  "states_at m name = (case map_of m name of None \<Rightarrow> zero_EventLogState | Some s \<Rightarrow> s)"

text \<open>\<^verbatim>\<open>c.states[s.Name] = s\<close>.\<close>

definition states_put :: "EventLogState \<Rightarrow> (string \<times> EventLogState) list \<Rightarrow>
    (string \<times> EventLogState) list" where
  "states_put s m = AList.update (Name s) s m"

text \<open>A table as the package builds it: no key twice, and every entry stored under
  its own name.\<close>

definition keyed_by_name :: "(string \<times> EventLogState) list \<Rightarrow> bool" where
  "keyed_by_name m = (distinct (map fst m) \<and> list_all (\<lambda>(k, s). Name s = k) m)"

subsection \<open>flush, persist and read\<close>

text \<open>The snapshot that \<^verbatim>\<open>flush\<close> builds: the keys of the map, sorted by
  \<^verbatim>\<open>sort.Strings\<close>, and for each key its entry.\<close>

definition sorted_names :: "Checkpoint \<Rightarrow> string list" where
  "sorted_names c = sort (map fst (states c))"

definition snapshot :: "Checkpoint \<Rightarrow> world \<Rightarrow> PersistedState" where
  "snapshot c w = \<lparr>UpdateTime = clock w,
                   States = map (states_at (states c)) (sorted_names c)\<rparr>"

definition flush :: "codec \<Rightarrow> flush_fault \<Rightarrow> Checkpoint \<Rightarrow> world \<Rightarrow>
    error option \<times> Checkpoint \<times> world" where
  "flush cd ft c w =
     (let tempFile = file c @ ''.new'' in
      if ft = CreateFails then (Some (CouldNotOpen tempFile), c, os_Create_failed tempFile w)
      else
        let w1 = os_Create tempFile w;
            c1 = c\<lparr>sort_buf := sorted_names c\<rparr>;
            ps = snapshot c1 w1
        in case Marshal cd ps of
             None \<Rightarrow> (Some CouldNotMarshal, c1, file_Close tempFile w1)
           | Some data \<Rightarrow>
               (case ft of
                  WriteFails n \<Rightarrow>
                    (Some (CouldNotWrite tempFile), c1,
                     file_Close tempFile (file_Write tempFile (take n data) w1))
                | _ \<Rightarrow>
                    let w2 = file_Close tempFile (file_Write tempFile data w1) in
                    if ft = RenameFails
                    then (Some (RenameFailed tempFile (file c)), c1,
                          os_Rename_failed tempFile (file c) w2)
                    else (None, c1, os_Rename tempFile (file c) w2)))"

definition persist :: "codec \<Rightarrow> flush_fault \<Rightarrow> Checkpoint \<Rightarrow> world \<Rightarrow>
    bool \<times> Checkpoint \<times> world" where
  "persist cd ft c w =
     (if numUpdates c = 0 then (False, c, w)
      else case flush cd ft c w of
             (Some err, c1, w1) \<Rightarrow> (False, c1, logp_Err err w1)
           | (None, c1, w1) \<Rightarrow>
               (True, c1\<lparr>numUpdates := 0\<rparr>, logp_Debug (numUpdates c1) w1))"

definition read :: "codec \<Rightarrow> bool \<Rightarrow> Checkpoint \<Rightarrow> world \<Rightarrow>
    error + PersistedState option" where
  "read cd read_fault c w =
     (case ioutil_ReadFile read_fault (file c) w of
        Inl err \<Rightarrow> if os_IsNotExist err then Inr None else Inl (ReadFailed err)
      | Inr contents \<Rightarrow>
          (case Unmarshal cd contents of
             None \<Rightarrow> Inl UnmarshalFailed
           | Some ps \<Rightarrow> Inr (Some ps)))"

subsection \<open>The timer of the worker\<close>

text \<open>A \<^verbatim>\<open>time.Timer\<close>: whether it is running, the duration it was last set to, and
  how many times \<^verbatim>\<open>Reset\<close> was called on it.\<close>

record timer =
  armed :: bool
  period :: duration
  resets :: nat

definition time_NewTimer :: "duration \<Rightarrow> timer" where
  "time_NewTimer d = \<lparr>armed = True, period = d, resets = 0\<rparr>"

text \<open>Receiving from \<^verbatim>\<open>flushTimer.C\<close>: the timer has expired.\<close>

definition timer_expired :: "timer \<Rightarrow> timer" where
  "timer_expired tm = tm\<lparr>armed := False\<rparr>"

definition timer_Reset :: "duration \<Rightarrow> timer \<Rightarrow> timer" where
  "timer_Reset d tm = tm\<lparr>armed := True, period := d, resets := resets tm + 1\<rparr>"

definition timer_Stop :: "timer \<Rightarrow> timer" where
  "timer_Stop tm = tm\<lparr>armed := False\<rparr>"

subsection \<open>The worker\<close>

text \<open>The three cases of the \<^verbatim>\<open>select\<close> in \<^verbatim>\<open>run\<close>, and the three ways the
  \<^verbatim>\<open>select\<close> statement is left: \<^verbatim>\<open>break loop\<close>, \<^verbatim>\<open>continue\<close>, or on to the two
  statements that end the loop body.\<close>

datatype event = Done | Save EventLogState | TimerC

datatype ctl = BreakLoop | ContinueLoop | FallThrough

text \<open>\<^verbatim>\<open>Persist\<close> sends this value on the channel \<^verbatim>\<open>save\<close>. It returns nothing.\<close>

definition Persist :: "string \<Rightarrow> uint32 \<Rightarrow> time \<Rightarrow> event" where
  "Persist name recordNumber ts =
     Save \<lparr>Name = name, RecordNumber = recordNumber, Timestamp = ts\<rparr>"

definition select_case :: "event \<Rightarrow> Checkpoint \<Rightarrow> timer \<Rightarrow> ctl \<times> Checkpoint \<times> timer" where
  "select_case ev c tm =
     (case ev of
        Done \<Rightarrow> (BreakLoop, c, tm)
      | Save s \<Rightarrow>
          (let c1 = c\<lparr>states := states_put s (states c)\<rparr>;
               c2 = c1\<lparr>numUpdates := numUpdates c1 + 1\<rparr>
           in if sint (numUpdates c2) < sint (maxUpdates c2)
              then (ContinueLoop, c2, tm)
              else (FallThrough, c2, tm))
      | TimerC \<Rightarrow> (FallThrough, c, timer_expired tm))"

text \<open>One pass of the loop body. The first component says whether the loop is left.\<close>

definition run_iter :: "codec \<Rightarrow> flush_fault \<Rightarrow> event \<Rightarrow> Checkpoint \<times> timer \<times> world \<Rightarrow>
    bool \<times> Checkpoint \<times> timer \<times> world" where
  "run_iter cd ft ev s =
     (case s of (c, tm, w) \<Rightarrow>
        (case select_case ev c tm of
           (BreakLoop, c1, tm1) \<Rightarrow> (True, c1, tm1, w)
         | (ContinueLoop, c1, tm1) \<Rightarrow> (False, c1, tm1, w)
         | (FallThrough, c1, tm1) \<Rightarrow>
             (case persist cd ft c1 w of
                (ok, c2, w2) \<Rightarrow> (False, c2, timer_Reset (flushInterval c2) tm1, w2))))"

text \<open>The loop, over the cases the \<^verbatim>\<open>select\<close> takes, each with the fault its flush
  meets if it flushes. The loop is left at the first \<open>Done\<close>; when the list ends
  before, the worker is waiting in the \<^verbatim>\<open>select\<close>.\<close>

fun run_loop :: "codec \<Rightarrow> (event \<times> flush_fault) list \<Rightarrow> Checkpoint \<times> timer \<times> world \<Rightarrow>
    bool \<times> Checkpoint \<times> timer \<times> world" where
  "run_loop cd [] s = (False, s)"
| "run_loop cd (e # es) s =
     (case run_iter cd (snd e) (fst e) s of
        (True, s1) \<Rightarrow> (True, s1)
      | (False, s1) \<Rightarrow> run_loop cd es s1)"

text \<open>What \<^verbatim>\<open>run\<close> does after the loop: the last \<^verbatim>\<open>persist\<close>, then the deferred
  \<^verbatim>\<open>flushTimer.Stop\<close> and \<^verbatim>\<open>wg.Done\<close>.\<close>

definition run_exit :: "codec \<Rightarrow> flush_fault \<Rightarrow> Checkpoint \<times> timer \<times> world \<Rightarrow>
    Checkpoint \<times> timer \<times> world" where
  "run_exit cd ft s =
     (case s of (c, tm, w) \<Rightarrow>
        (case persist cd ft c w of
           (ok, c1, w1) \<Rightarrow> (c1\<lparr>wg := wg c1 - 1\<rparr>, timer_Stop tm, w1)))"

text \<open>The worker from a point in its loop on: \<open>None\<close> when it has not returned.\<close>

definition run_from :: "codec \<Rightarrow> (event \<times> flush_fault) list \<Rightarrow> flush_fault \<Rightarrow>
    Checkpoint \<times> timer \<times> world \<Rightarrow> (Checkpoint \<times> timer \<times> world) option" where
  "run_from cd es ft s =
     (case run_loop cd es s of
        (True, s1) \<Rightarrow> Some (run_exit cd ft s1)
      | (False, s1) \<Rightarrow> None)"

definition run :: "codec \<Rightarrow> (event \<times> flush_fault) list \<Rightarrow> flush_fault \<Rightarrow>
    Checkpoint \<Rightarrow> world \<Rightarrow> (Checkpoint \<times> timer \<times> world) option" where
  "run cd es ft c w = run_from cd es ft (c, time_NewTimer (flushInterval c), w)"

subsection \<open>The exported functions\<close>

text \<open>\<^verbatim>\<open>NewCheckpoint\<close>, with the worker it starts at the head of its loop.\<close>

definition NewCheckpoint :: "codec \<Rightarrow> bool \<Rightarrow> world \<Rightarrow> string \<Rightarrow> go_int \<Rightarrow> duration \<Rightarrow>
    error + Checkpoint \<times> timer" where
  "NewCheckpoint cd read_fault w f mu interval =
     (let c = \<lparr>wg = 0, done_closed = False, once_done = False, file = f,
                numUpdates = 0, maxUpdates = mu, flushInterval = interval,
                sort_buf = [], states = []\<rparr>;
          c = (if sint (maxUpdates c) < 1 then c\<lparr>maxUpdates := 1\<rparr> else c);
          c = (if sint (flushInterval c) < sint Second then c\<lparr>flushInterval := Second\<rparr> else c)
      in case read cd read_fault c w of
           Inl err \<Rightarrow> Inl err
         | Inr None \<Rightarrow>
             (let c = c\<lparr>wg := wg c + 1\<rparr> in Inr (c, time_NewTimer (flushInterval c)))
         | Inr (Some ps) \<Rightarrow>
             (let c = c\<lparr>states := fold states_put (States ps) (states c)\<rparr>;
                  c = c\<lparr>wg := wg c + 1\<rparr>
              in Inr (c, time_NewTimer (flushInterval c))))"

text \<open>\<^verbatim>\<open>Shutdown\<close>. Inside \<^verbatim>\<open>once.Do\<close> the channel \<^verbatim>\<open>done\<close> is closed and
  \<^verbatim>\<open>wg.Wait\<close> returns when the counter of the wait group is zero: at once when no
  worker runs, and otherwise when the worker has returned. \<open>pending\<close> are the cases the
  worker's \<^verbatim>\<open>select\<close> still takes before it takes \<^verbatim>\<open><-c.done\<close>. \<open>None\<close>: the
  call does not return.\<close>

definition Shutdown :: "codec \<Rightarrow> (event \<times> flush_fault) list \<Rightarrow> flush_fault \<Rightarrow>
    Checkpoint \<times> timer \<times> world \<Rightarrow> (Checkpoint \<times> timer \<times> world) option" where
  "Shutdown cd pending ft s =
     (case s of (c, tm, w) \<Rightarrow>
        if once_done c then Some s
        else
          let c0 = c\<lparr>done_closed := True\<rparr> in
          if wg c0 = 0 then Some (c0\<lparr>once_done := True\<rparr>, tm, w)
          else
            (case run_from cd (pending @ [(Done, NoFault)]) ft (c0, tm, w) of
               None \<Rightarrow> None
             | Some (c1, tm1, w1) \<Rightarrow>
                 if wg c1 = 0 then Some (c1\<lparr>once_done := True\<rparr>, tm1, w1) else None))"

text \<open>\<^verbatim>\<open>States\<close>: a fresh map that receives every entry of \<^verbatim>\<open>c.states\<close>.\<close>

definition States_copy :: "Checkpoint \<Rightarrow> (string \<times> EventLogState) list" where
  "States_copy c = fold (\<lambda>kv copy. AList.update (fst kv) (snd kv) copy) (states c) []"

subsection \<open>An instance of the codec\<close>

text \<open>The theorems below hold for every codec. The examples need one to compute with:
  a length-prefixed binary layout (not YAML), little-endian, that writes a snapshot as
  eight bytes of \<open>UpdateTime\<close> and then, for each entry, one byte for the length of
  the name, the name, four bytes of record number and eight bytes of timestamp. As
  \<^verbatim>\<open>yaml.Unmarshal\<close> does, it reads empty contents as the zero snapshot.\<close>

fun le_bytes :: "nat \<Rightarrow> nat \<Rightarrow> bytes" where
  "le_bytes 0 n = []"
| "le_bytes (Suc k) n = char_of n # le_bytes k (n div 256)"

fun le_nat :: "bytes \<Rightarrow> nat" where
  "le_nat [] = 0"
| "le_nat (b # bs) = of_char b + 256 * le_nat bs"

definition encodable :: "EventLogState \<Rightarrow> bool" where
  "encodable s = (length (Name s) < 256 \<and> 0 \<le> Timestamp s \<and> Timestamp s < 2 ^ 64)"

definition enc_state :: "EventLogState \<Rightarrow> bytes" where
  "enc_state s = char_of (length (Name s)) # Name s
       @ le_bytes 4 (unat (RecordNumber s)) @ le_bytes 8 (nat (Timestamp s))"

fun dec_states :: "bytes \<Rightarrow> EventLogState list option" where
  "dec_states [] = Some []"
| "dec_states (n # rest) =
     (let l = of_char n in
      if length rest < l + 12 then None
      else case dec_states (drop (l + 12) rest) of
             None \<Rightarrow> None
           | Some ss \<Rightarrow>
               Some (\<lparr>Name = take l rest,
                      RecordNumber = of_nat (le_nat (take 4 (drop l rest))),
                      Timestamp = int (le_nat (take 8 (drop (l + 4) rest)))\<rparr> # ss))"

definition plain_codec :: codec where
  "plain_codec =
     \<lparr>Marshal = (\<lambda>ps.
        if 0 \<le> UpdateTime ps \<and> UpdateTime ps < 2 ^ 64 \<and> list_all encodable (States ps)
        then Some (le_bytes 8 (nat (UpdateTime ps)) @ concat (map enc_state (States ps)))
        else None),
      Unmarshal = (\<lambda>d.
        if d = [] then Some zero_PersistedState
        else if length d < 8 then None
        else case dec_states (drop 8 d) of
               None \<Rightarrow> None
             | Some ss \<Rightarrow> Some \<lparr>UpdateTime = int (le_nat (take 8 d)), States = ss\<rparr>)\<rparr>"

subsection \<open>Example values\<close>

definition ex_app :: EventLogState where
  "ex_app = \<lparr>Name = ''App'', RecordNumber = 10, Timestamp = 7\<rparr>"

definition ex_sys :: EventLogState where
  "ex_sys = \<lparr>Name = ''Sys'', RecordNumber = 300, Timestamp = 70000\<rparr>"

definition ex_world :: world where
  "ex_world = \<lparr>files = Map.empty, mtime = Map.empty, clock = 1000,
               fs_trace = [], logs = []\<rparr>"

text \<open>A world where an earlier snapshot, with one entry, is on disk.\<close>

definition ex_saved :: bytes where
  "ex_saved = le_bytes 8 500 @ enc_state ex_app"

definition ex_disk :: world where
  "ex_disk = \<lparr>files = [''cp.yml'' \<mapsto> ex_saved], mtime = [''cp.yml'' \<mapsto> 500],
              clock = 1000, fs_trace = [], logs = []\<rparr>"

text \<open>A checkpoint with two updates not yet on disk.\<close>

definition ex_checkpoint :: Checkpoint where
  "ex_checkpoint = \<lparr>wg = 1, done_closed = False, once_done = False, file = ''cp.yml'',
                    numUpdates = 2, maxUpdates = 5, flushInterval = Second,
                    sort_buf = [], states = [(''Sys'', ex_sys), (''App'', ex_app)]\<rparr>"

section \<open>Properties\<close>

subsection \<open>What flush and persist change\<close>

lemma snapshot_cong:
  "states c1 = states c \<Longrightarrow> clock w1 = clock w \<Longrightarrow> snapshot c1 w1 = snapshot c w"
  by (simp add: snapshot_def sorted_names_def)

lemma flush_checkpoint:
  "flush cd ft c w = (r, c1, w1) \<Longrightarrow>
     states c1 = states c \<and> numUpdates c1 = numUpdates c \<and> file c1 = file c
     \<and> maxUpdates c1 = maxUpdates c \<and> flushInterval c1 = flushInterval c
     \<and> wg c1 = wg c \<and> once_done c1 = once_done c \<and> done_closed c1 = done_closed c"
  by (auto simp: flush_def Let_def split: if_splits option.splits flush_fault.splits)

lemma flush_failed_target:
  "flush cd ft c w = (Some err, c1, w1) \<Longrightarrow>
     files w1 (file c) = files w (file c) \<and> mtime w1 (file c) = mtime w (file c)"
  by (auto simp: flush_def Let_def os_Create_def os_Create_failed_def file_Write_def
        file_Close_def os_Rename_failed_def split: if_splits option.splits flush_fault.splits)

lemma flush_traced:
  "flush cd ft c w = (r, c1, w1) \<Longrightarrow>
     \<exists>ops. fs_trace w1 = fs_trace w @ OpCreate (file c @ ''.new'') # ops"
  by (auto simp: flush_def Let_def os_Create_def os_Create_failed_def file_Write_def
        file_Close_def os_Rename_failed_def os_Rename_def
        split: if_splits option.splits flush_fault.splits)

lemma flush_succeeded:
  assumes "flush cd ft c w = (None, c1, w1)"
  shows "\<exists>d. Marshal cd (snapshot c w) = Some d \<and> files w1 (file c) = Some d
           \<and> mtime w1 (file c) = Some (clock w)
           \<and> files w1 (file c @ ''.new'') = None"
proof -
  have snap: "snapshot (c\<lparr>sort_buf := sorted_names c\<rparr>) (os_Create (file c @ ''.new'') w)
      = snapshot c w"
    by (rule snapshot_cong) (simp_all add: os_Create_def)
  from assms show ?thesis
    unfolding flush_def Let_def snap
    by (auto simp: os_Create_def file_Write_def file_Close_def os_Rename_def
          split: if_splits option.splits flush_fault.splits)
qed

lemma persist_logs_only:
  "files (logp_Err e w) = files w" "mtime (logp_Err e w) = mtime w"
  "fs_trace (logp_Err e w) = fs_trace w" "clock (logp_Err e w) = clock w"
  "files (logp_Debug n w) = files w" "mtime (logp_Debug n w) = mtime w"
  "fs_trace (logp_Debug n w) = fs_trace w" "clock (logp_Debug n w) = clock w"
  by (simp_all add: logp_Err_def logp_Debug_def)

lemma persist_clean: "numUpdates c = 0 \<Longrightarrow> persist cd ft c w = (False, c, w)"
  by (simp add: persist_def)

lemma persist_dirty_failed:
  "numUpdates c \<noteq> 0 \<Longrightarrow> flush cd ft c w = (Some err, c1, w1) \<Longrightarrow>
     persist cd ft c w = (False, c1, logp_Err err w1)"
  by (simp add: persist_def)

lemma persist_dirty_ok:
  "numUpdates c \<noteq> 0 \<Longrightarrow> flush cd ft c w = (None, c1, w1) \<Longrightarrow>
     persist cd ft c w = (True, c1\<lparr>numUpdates := 0\<rparr>, logp_Debug (numUpdates c1) w1)"
  by (simp add: persist_def)

lemma select_case_Save:
  "select_case (Save s) c tm = (k, c1, tm1) \<Longrightarrow>
     k \<noteq> BreakLoop \<and> states c1 = states_put s (states c) \<and> tm1 = tm
     \<and> numUpdates c1 = numUpdates c + 1"
  by (auto simp: select_case_def Let_def split: if_splits)

lemma persist_checkpoint:
  "persist cd ft c w = (ok, c1, w1) \<Longrightarrow>
     states c1 = states c \<and> file c1 = file c
     \<and> maxUpdates c1 = maxUpdates c \<and> flushInterval c1 = flushInterval c
     \<and> wg c1 = wg c \<and> once_done c1 = once_done c \<and> done_closed c1 = done_closed c"
  by (cases "flush cd ft c w")
     (auto simp: persist_def split: if_splits option.splits dest: flush_checkpoint)

lemma states_at_put: "states_at (states_put s m) (Name s) = s"
  by (simp add: states_at_def states_put_def update_conv')

lemma run_iter_Save:
  assumes "run_iter cd ft (Save s) (c, tm, w) = (b, c1, tm1, w1)"
  shows "\<not> b \<and> states c1 = states_put s (states c)"
proof (cases "select_case (Save s) c tm")
  case (fields k c2 tm2)
  note sc = select_case_Save [OF fields]
  show ?thesis
  proof (cases k)
    case BreakLoop
    with sc show ?thesis by simp
  next
    case ContinueLoop
    with assms fields sc show ?thesis by (simp add: run_iter_def)
  next
    case FallThrough
    obtain ok c3 w3 where p: "persist cd ft c2 w = (ok, c3, w3)"
      by (cases "persist cd ft c2 w") auto
    from assms fields FallThrough p persist_checkpoint [OF p] sc
    show ?thesis by (simp add: run_iter_def)
  qed
qed

lemma flush_fault_fails: "ft \<noteq> NoFault \<Longrightarrow> fst (flush cd ft c w) \<noteq> None"
  by (cases ft) (simp_all add: flush_def Let_def split: option.splits)

lemma flush_NoFault_succeeds:
  "Marshal cd (snapshot c w) = Some d \<Longrightarrow> fst (flush cd NoFault c w) = None"
proof -
  assume m: "Marshal cd (snapshot c w) = Some d"
  have snap: "snapshot (c\<lparr>sort_buf := sorted_names c\<rparr>) (os_Create (file c @ ''.new'') w)
      = snapshot c w"
    by (rule snapshot_cong) (simp_all add: os_Create_def)
  show ?thesis
    unfolding flush_def Let_def snap by (simp add: m)
qed

text \<open>A flush fails exactly when the operating system fails at one of its steps or
  the snapshot cannot be marshalled.\<close>

lemma flush_fails_iff:
  "fst (flush cd ft c w) \<noteq> None \<longleftrightarrow> ft \<noteq> NoFault \<or> Marshal cd (snapshot c w) = None"
proof (cases "ft = NoFault")
  case False
  then show ?thesis by (simp add: flush_fault_fails)
next
  case True
  show ?thesis
  proof (cases "Marshal cd (snapshot c w)")
    case None
    obtain r c1 w1 where fl: "flush cd ft c w = (r, c1, w1)"
      by (cases "flush cd ft c w") auto
    have "r \<noteq> None"
    proof
      assume "r = None"
      with flush_succeeded [of cd ft c w c1 w1] fl None show False by simp
    qed
    with fl None show ?thesis by simp
  next
    case (Some d)
    with True flush_NoFault_succeeds [OF Some] show ?thesis by simp
  qed
qed

subsection \<open>A flush that fails\<close>

text \<open>Claim C1. When a flush of a dirty checkpoint fails at any step (creating the
  temporary file, marshalling, writing, renaming), \<^verbatim>\<open>persist\<close> reports \<open>False\<close>, the
  target file keeps its contents and its modification time, and the counter
  \<open>numUpdates\<close> and the table are as before. The next call of \<^verbatim>\<open>persist\<close>, at the
  next trigger, therefore flushes again, whatever happens then: it calls the file
  system, and when that flush succeeds the target holds the marshalled snapshot of the
  table and the counter is reset. The error goes to the log only: \<^verbatim>\<open>Persist\<close> returns
  no value, and a pass of the loop that receives an update stores it and stays in the
  loop whatever fault its flush meets.\<close>

theorem failed_flush_keeps_last_good:
  assumes dirty: "numUpdates c \<noteq> 0"
    and fails: "fst (flush cd ft c w) \<noteq> None"
    and p: "persist cd ft c w = (ok, c', w')"
  shows "\<not> ok
    \<and> files w' (file c) = files w (file c) \<and> mtime w' (file c) = mtime w (file c)
    \<and> numUpdates c' = numUpdates c \<and> states c' = states c \<and> file c' = file c
    \<and> (\<forall>ft2 w2. case persist cd ft2 c' w2 of
          (ok2, c2, w3) \<Rightarrow>
            fs_trace w3 \<noteq> fs_trace w2
            \<and> (fst (flush cd ft2 c' w2) = None \<longrightarrow>
                 ok2 \<and> numUpdates c2 = 0
                 \<and> (\<exists>d. Marshal cd (snapshot c w2) = Some d \<and> files w3 (file c) = Some d)))
    \<and> (\<forall>ft3 name rn ts c0 tm w0.
          case run_iter cd ft3 (Persist name rn ts) (c0, tm, w0) of
            (left, c1, tm1, w1) \<Rightarrow>
              \<not> left \<and> states_at (states c1) name
                = \<lparr>Name = name, RecordNumber = rn, Timestamp = ts\<rparr>)"
proof -
  obtain r c1 w1 where fl: "flush cd ft c w = (r, c1, w1)"
    by (cases "flush cd ft c w") auto
  with fails obtain err where r: "r = Some err" by auto
  from persist_dirty_failed [OF dirty fl [unfolded r]] p
  have ok: "\<not> ok" and c': "c' = c1" and w': "w' = logp_Err err w1" by simp_all
  note same = flush_checkpoint [OF fl]
  have target: "files w' (file c) = files w (file c) \<and> mtime w' (file c) = mtime w (file c)"
    using flush_failed_target [OF fl [unfolded r]] by (simp add: w' persist_logs_only)
  have retry: "case persist cd ft2 c' w2 of
          (ok2, c2, w3) \<Rightarrow>
            fs_trace w3 \<noteq> fs_trace w2
            \<and> (fst (flush cd ft2 c' w2) = None \<longrightarrow>
                 ok2 \<and> numUpdates c2 = 0
                 \<and> (\<exists>d. Marshal cd (snapshot c w2) = Some d \<and> files w3 (file c) = Some d))"
    for ft2 w2
  proof -
    obtain r2 c2 w3 where fl2: "flush cd ft2 c' w2 = (r2, c2, w3)"
      by (cases "flush cd ft2 c' w2") auto
    have dirty': "numUpdates c' \<noteq> 0" using dirty same c' by simp
    have snap: "snapshot c' w2 = snapshot c w2"
      by (rule snapshot_cong) (simp_all add: c' same)
    have fc: "file c' = file c" by (simp add: c' same)
    from flush_traced [OF fl2] have tr: "fs_trace w3 \<noteq> fs_trace w2" by auto
    show ?thesis
    proof (cases r2)
      case None
      from flush_succeeded [OF fl2 [unfolded None]] snap fc
      obtain d where "Marshal cd (snapshot c w2) = Some d" "files w3 (file c) = Some d"
        by auto
      with persist_dirty_ok [OF dirty' fl2 [unfolded None]] tr fl2 None
      show ?thesis by (simp add: persist_logs_only)
    next
      case (Some e)
      with persist_dirty_failed [OF dirty' fl2 [unfolded Some]] tr fl2
      show ?thesis by (simp add: persist_logs_only)
    qed
  qed
  have recorded: "case run_iter cd ft3 (Persist name rn ts) (c0, tm, w0) of
            (left, c1, tm1, w1) \<Rightarrow>
              \<not> left \<and> states_at (states c1) name
                = \<lparr>Name = name, RecordNumber = rn, Timestamp = ts\<rparr>"
    for ft3 name rn ts c0 tm w0
  proof -
    let ?s = "\<lparr>Name = name, RecordNumber = rn, Timestamp = ts\<rparr>"
    obtain b c1 tm1 w1 where it: "run_iter cd ft3 (Save ?s) (c0, tm, w0) = (b, c1, tm1, w1)"
      by (cases "run_iter cd ft3 (Save ?s) (c0, tm, w0)") auto
    from run_iter_Save [OF it] states_at_put [of ?s "states c0"] it
    show ?thesis by (simp add: Persist_def)
  qed
  have kept: "numUpdates c' = numUpdates c \<and> states c' = states c \<and> file c' = file c"
    using same c' by simp
  from retry have retry_all: "\<forall>ft2 w2. case persist cd ft2 c' w2 of
          (ok2, c2, w3) \<Rightarrow>
            fs_trace w3 \<noteq> fs_trace w2
            \<and> (fst (flush cd ft2 c' w2) = None \<longrightarrow>
                 ok2 \<and> numUpdates c2 = 0
                 \<and> (\<exists>d. Marshal cd (snapshot c w2) = Some d \<and> files w3 (file c) = Some d))"
    by (intro allI)
  from recorded have recorded_all: "\<forall>ft3 name rn ts c0 tm w0.
          case run_iter cd ft3 (Persist name rn ts) (c0, tm, w0) of
            (left, c1, tm1, w1) \<Rightarrow>
              \<not> left \<and> states_at (states c1) name
                = \<lparr>Name = name, RecordNumber = rn, Timestamp = ts\<rparr>"
    by (intro allI)
  show ?thesis
    using ok target kept retry_all recorded_all by (intro conjI) (elim conjE, assumption)+
qed

theorem failed_flush_keeps_last_good_witness:
  "numUpdates ex_checkpoint \<noteq> 0
   \<and> fst (flush plain_codec RenameFails ex_checkpoint ex_disk) \<noteq> None
   \<and> (case persist plain_codec RenameFails ex_checkpoint ex_disk of
         (ok, c', w') \<Rightarrow>
           \<not> ok \<and> files w' ''cp.yml'' = Some ex_saved \<and> mtime w' ''cp.yml'' = Some 500
           \<and> numUpdates c' = 2)"
proof -
  have dirty: "numUpdates ex_checkpoint \<noteq> 0"
    by (simp add: ex_checkpoint_def)
  have fails: "fst (flush plain_codec RenameFails ex_checkpoint ex_disk) \<noteq> None"
    by (rule flush_fault_fails) simp
  obtain ok c' w' where p: "persist plain_codec RenameFails ex_checkpoint ex_disk = (ok, c', w')"
    by (cases "persist plain_codec RenameFails ex_checkpoint ex_disk") auto
  have f: "file ex_checkpoint = ''cp.yml''" "numUpdates ex_checkpoint = 2"
    "files ex_disk ''cp.yml'' = Some ex_saved" "mtime ex_disk ''cp.yml'' = Some 500"
    by (simp_all add: ex_checkpoint_def ex_disk_def)
  from failed_flush_keeps_last_good [OF dirty fails p] dirty fails p f
  show ?thesis by simp
qed

subsection \<open>Arithmetic and reading\<close>

lemma sint_succ:
  fixes n :: "64 word"
  assumes "sint n < 2 ^ 63 - 1"
  shows "sint (n + 1) = sint n + 1"
proof -
  have lo: "- (2 ^ 63) \<le> sint n" using sint_ge [of n] by simp
  have "sint (n + 1) = signed_take_bit 63 (sint n + 1)"
    by (simp add: sint_word_add)
  also have "\<dots> = sint n + 1"
    using lo assms by (intro signed_take_bit_int_eq_self) simp_all
  finally show ?thesis .
qed

lemma read_file_only: "file c = file c' \<Longrightarrow> read cd rf c w = read cd rf c' w"
  by (simp add: read_def)

lemma sint_Second: "sint Second = 1000000000"
  by (simp add: Second_def)

lemma read_cases:
  "read cd rf c w =
     (if rf then Inl (ReadFailed ErrOther)
      else case files w (file c) of
             None \<Rightarrow> Inr None
           | Some d \<Rightarrow>
               (case Unmarshal cd d of None \<Rightarrow> Inl UnmarshalFailed | Some ps \<Rightarrow> Inr (Some ps)))"
  by (simp add: read_def ioutil_ReadFile_def os_IsNotExist_def split: option.splits)

lemma NewCheckpoint_cases:
  "NewCheckpoint cd rf w f mu iv =
     (let c = \<lparr>wg = 1, done_closed = False, once_done = False, file = f, numUpdates = 0,
                maxUpdates = (if sint mu < 1 then 1 else mu),
                flushInterval = (if sint iv < 1000000000 then Second else iv),
                sort_buf = [], states = []\<rparr>
      in if rf then Inl (ReadFailed ErrOther)
         else case files w f of
                None \<Rightarrow> Inr (c, time_NewTimer (flushInterval c))
              | Some d \<Rightarrow>
                  (case Unmarshal cd d of
                     None \<Rightarrow> Inl UnmarshalFailed
                   | Some ps \<Rightarrow>
                       Inr (c\<lparr>states := fold states_put (States ps) []\<rparr>,
                            time_NewTimer (flushInterval c))))"
  by (simp add: NewCheckpoint_def read_cases Let_def sint_Second split: option.splits)

subsection \<open>A trigger with nothing pending\<close>

text \<open>Claim C8. When \<open>numUpdates\<close> is zero, \<^verbatim>\<open>persist\<close> returns at once: checkpoint
  and world are as before, so no file is created, written or renamed, and contents and
  modification time of the target stay. This holds at both places where \<^verbatim>\<open>persist\<close>
  is reached with a counter that may be zero: the pass of the loop that the timer
  starts, and the end of \<^verbatim>\<open>run\<close>.\<close>
theorem persist_without_updates_is_noop:
  assumes "numUpdates c = 0"
  shows "persist cd ft c w = (False, c, w)
     \<and> snd (snd (snd (run_iter cd ft TimerC (c, tm, w)))) = w
     \<and> snd (snd (run_exit cd ft (c, tm, w))) = w"
  using assms by (simp add: persist_clean run_iter_def select_case_def run_exit_def)

theorem persist_without_updates_is_noop_witness:
  "numUpdates (ex_checkpoint\<lparr>numUpdates := 0\<rparr>) = 0
   \<and> persist plain_codec NoFault (ex_checkpoint\<lparr>numUpdates := 0\<rparr>) ex_disk
       = (False, ex_checkpoint\<lparr>numUpdates := 0\<rparr>, ex_disk)
   \<and> files (snd (snd (snd (run_iter plain_codec NoFault TimerC
         (ex_checkpoint\<lparr>numUpdates := 0\<rparr>, time_NewTimer Second, ex_disk))))) ''cp.yml''
       = Some ex_saved"
proof -
  have z: "numUpdates (ex_checkpoint\<lparr>numUpdates := 0\<rparr>) = 0" by simp
  have "files ex_disk ''cp.yml'' = Some ex_saved" by (simp add: ex_disk_def)
  with persist_without_updates_is_noop [OF z, of plain_codec NoFault ex_disk "time_NewTimer Second"]
  show ?thesis by simp
qed

subsection \<open>When the loop flushes\<close>

text \<open>Claim C4. A pass of the loop calls \<^verbatim>\<open>persist\<close> exactly when it was started by
  the timer, or by an update with which the counter reaches \<open>maxUpdates\<close>; the timer is
  then reset to \<open>flushInterval\<close>, whatever \<^verbatim>\<open>persist\<close> returns and whatever fault the
  flush meets. An update below the threshold is stored and counted, and leaves world
  and timer alone. The loop is left on \<open>Done\<close> only. The hypothesis keeps the counter
  below the largest \<^verbatim>\<open>int\<close>, where \<^verbatim>\<open>numUpdates++\<close> would wrap around.\<close>
theorem flush_trigger_policy:
  assumes room: "sint (numUpdates c) < 2 ^ 63 - 1"
    and it: "run_iter cd ft ev (c, tm, w) = (left, c1, tm1, w1)"
  shows "(left \<longleftrightarrow> ev = Done)
    \<and> (if ev = TimerC \<or> (\<exists>s. ev = Save s \<and> sint (maxUpdates c) \<le> sint (numUpdates c) + 1)
       then (\<exists>ok. persist cd ft (fst (snd (select_case ev c tm))) w = (ok, c1, w1))
            \<and> armed tm1 \<and> period tm1 = flushInterval c \<and> resets tm1 = resets tm + 1
       else c1 = fst (snd (select_case ev c tm)) \<and> w1 = w \<and> tm1 = tm)"
proof (cases ev)
  case Done
  with it show ?thesis by (simp add: run_iter_def select_case_def)
next
  case TimerC
  obtain ok c2 w2 where p: "persist cd ft c w = (ok, c2, w2)"
    by (cases "persist cd ft c w") auto
  from it TimerC p persist_checkpoint [OF p] show ?thesis
    by (auto simp: run_iter_def select_case_def timer_Reset_def timer_expired_def)
next
  case (Save s)
  let ?c2 = "c\<lparr>states := states_put s (states c), numUpdates := numUpdates c + 1\<rparr>"
  show ?thesis
  proof (cases "sint (maxUpdates c) \<le> sint (numUpdates c) + 1")
    case True
    then have sc: "select_case ev c tm = (FallThrough, ?c2, tm)"
      using room by (simp add: Save select_case_def Let_def sint_succ)
    obtain ok c3 w3 where p: "persist cd ft ?c2 w = (ok, c3, w3)"
      by (cases "persist cd ft ?c2 w") auto
    from it sc p persist_checkpoint [OF p] True Save show ?thesis
      by (auto simp: run_iter_def timer_Reset_def)
  next
    case False
    then have sc: "select_case ev c tm = (ContinueLoop, ?c2, tm)"
      using room by (simp add: Save select_case_def Let_def sint_succ)
    from it sc False Save show ?thesis
      by (auto simp: run_iter_def)
  qed
qed

theorem flush_trigger_policy_witness:
  "sint (numUpdates ex_checkpoint) < 2 ^ 63 - 1
   \<and> (case run_iter plain_codec RenameFails (Save ex_app)
            (ex_checkpoint\<lparr>maxUpdates := 3\<rparr>, time_NewTimer Second, ex_disk) of
         (left, c1, tm1, w1) \<Rightarrow> \<not> left \<and> armed tm1 \<and> resets tm1 = 1)
   \<and> run_iter plain_codec RenameFails (Save ex_app)
            (ex_checkpoint, time_NewTimer Second, ex_disk)
       = (False, ex_checkpoint\<lparr>states := [(''Sys'', ex_sys), (''App'', ex_app)],
                                 numUpdates := 3\<rparr>,
          time_NewTimer Second, ex_disk)"
proof -
  let ?tm = "time_NewTimer Second"
  let ?c = "ex_checkpoint\<lparr>maxUpdates := 3\<rparr>"
  have room: "sint (numUpdates ex_checkpoint) < 2 ^ 63 - 1"
    by (simp add: ex_checkpoint_def)
  have room': "sint (numUpdates ?c) < 2 ^ 63 - 1"
    by (simp add: ex_checkpoint_def)
  obtain left c1 tm1 w1
    where it: "run_iter plain_codec RenameFails (Save ex_app) (?c, ?tm, ex_disk)
                 = (left, c1, tm1, w1)"
    by (cases "run_iter plain_codec RenameFails (Save ex_app) (?c, ?tm, ex_disk)") auto
  have tr: "sint (maxUpdates ?c) \<le> sint (numUpdates ?c) + 1"
    by (simp add: ex_checkpoint_def)
  from flush_trigger_policy [OF room' it] tr
  have a: "\<not> left \<and> armed tm1 \<and> resets tm1 = 1"
    by (simp add: time_NewTimer_def)
  obtain left' c1' tm1' w1'
    where it': "run_iter plain_codec RenameFails (Save ex_app) (ex_checkpoint, ?tm, ex_disk)
                 = (left', c1', tm1', w1')"
    by (cases "run_iter plain_codec RenameFails (Save ex_app) (ex_checkpoint, ?tm, ex_disk)") auto
  have ntr: "\<not> sint (maxUpdates ex_checkpoint) \<le> sint (numUpdates ex_checkpoint) + 1"
    by (simp add: ex_checkpoint_def)
  have sc: "fst (snd (select_case (Save ex_app) ex_checkpoint ?tm))
      = ex_checkpoint\<lparr>states := [(''Sys'', ex_sys), (''App'', ex_app)], numUpdates := 3\<rparr>"
    by (simp add: select_case_def Let_def ex_checkpoint_def states_put_def ex_app_def)
  from flush_trigger_policy [OF room it'] ntr sc
  have b: "\<not> left' \<and> c1' = ex_checkpoint\<lparr>states := [(''Sys'', ex_sys), (''App'', ex_app)],
                                 numUpdates := 3\<rparr> \<and> w1' = ex_disk \<and> tm1' = ?tm"
    by simp
  from room a b it it' show ?thesis by simp
qed

subsection \<open>The configuration after construction\<close>

text \<open>Claim C9. Whatever \<open>maxUpdates\<close> and \<open>interval\<close> are passed, a checkpoint that
  \<^verbatim>\<open>NewCheckpoint\<close> returns has \<open>maxUpdates\<close> at least 1 and \<open>flushInterval\<close> at least one
  second (\<open>1000000000\<close> nanoseconds): a smaller argument is replaced by the floor, any
  other is kept. When \<^verbatim>\<open>NewCheckpoint\<close> fails it fails with the same error for every
  other pair of arguments, so the two numbers never are the cause.\<close>

theorem NewCheckpoint_clamps:
  "case NewCheckpoint cd rf w f mu iv of
     Inl err \<Rightarrow> (\<forall>mu' iv'. NewCheckpoint cd rf w f mu' iv' = Inl err)
   | Inr (c, tm) \<Rightarrow>
       1 \<le> sint (maxUpdates c) \<and> 1000000000 \<le> sint (flushInterval c)
       \<and> maxUpdates c = (if sint mu < 1 then 1 else mu)
       \<and> flushInterval c = (if sint iv < 1000000000 then 1000000000 else iv)
       \<and> period tm = flushInterval c"
  by (simp add: NewCheckpoint_cases Let_def time_NewTimer_def Second_def split: option.splits)

theorem NewCheckpoint_clamps_witness:
  "case NewCheckpoint plain_codec False ex_world ''cp.yml'' 0 5 of
     Inl err \<Rightarrow> False
   | Inr (c, tm) \<Rightarrow> maxUpdates c = 1 \<and> flushInterval c = 1000000000"
proof -
  obtain c tm where n: "NewCheckpoint plain_codec False ex_world ''cp.yml'' 0 5 = Inr (c, tm)"
    by (simp add: NewCheckpoint_cases ex_world_def Let_def)
  from NewCheckpoint_clamps [of plain_codec False ex_world "''cp.yml''" 0 5] n
  show ?thesis by simp
qed

subsection \<open>The table\<close>

lemma map_of_states_put: "map_of (states_put s m) = (map_of m)(Name s \<mapsto> s)"
  by (simp add: states_put_def update_conv')

lemma set_update_subset: "set (AList.update k v m) \<subseteq> insert (k, v) (set m)"
  by (induction m) auto

lemma keyed_by_name_put: "keyed_by_name m \<Longrightarrow> keyed_by_name (states_put s m)"
proof -
  assume k: "keyed_by_name m"
  have "distinct (map fst (AList.update (Name s) s m))"
    using k by (simp add: keyed_by_name_def distinct_update)
  moreover have "\<forall>(k, v) \<in> set (AList.update (Name s) s m). Name v = k"
    using k set_update_subset [of "Name s" s m]
    by (auto simp: keyed_by_name_def list_all_iff)
  ultimately show ?thesis
    by (simp add: keyed_by_name_def states_put_def list_all_iff)
qed

lemma keyed_by_name_fold: "keyed_by_name m \<Longrightarrow> keyed_by_name (fold states_put ss m)"
  by (induction ss arbitrary: m) (simp_all add: keyed_by_name_put)

lemma keyed_by_name_Nil: "keyed_by_name []"
  by (simp add: keyed_by_name_def)

lemma map_of_fold_states_put:
  "map_of (fold states_put ss m) = map_of m ++ map_of (rev (map (\<lambda>s. (Name s, s)) ss))"
proof (induction ss arbitrary: m)
  case Nil
  show ?case by simp
next
  case (Cons s ss)
  show ?case
    by (rule ext) (simp add: Cons.IH map_of_states_put map_add_def split: option.splits)
qed

lemma keyed_set_eq:
  assumes "keyed_by_name m" and "distinct (map Name ss)"
    and "map_of m = map_of (rev (map (\<lambda>s. (Name s, s)) ss))"
  shows "set m = (\<lambda>s. (Name s, s)) ` set ss"
proof -
  have d: "distinct (map fst (rev (map (\<lambda>s. (Name s, s)) ss)))"
    using assms(2) by (simp add: rev_map [symmetric] comp_def)
  have "set m = set (rev (map (\<lambda>s. (Name s, s)) ss))"
    using assms(1,3) d map_of_inject_set [of m "rev (map (\<lambda>s. (Name s, s)) ss)"]
    by (simp add: keyed_by_name_def)
  then show ?thesis by simp
qed

lemma states_at_member:
  "distinct (map fst m) \<Longrightarrow> (k, v) \<in> set m \<Longrightarrow> states_at m k = v"
  by (simp add: states_at_def)

lemma keyed_by_name_member:
  "keyed_by_name m \<Longrightarrow> (k, v) \<in> set m \<Longrightarrow> Name v = k \<and> states_at m k = v"
  by (auto simp: keyed_by_name_def list_all_iff states_at_member)

lemma snapshot_names:
  assumes "keyed_by_name (states c)"
  shows "map Name (States (snapshot c w)) = sorted_names c"
proof -
  have "Name (states_at (states c) k) = k" if "k \<in> set (sorted_names c)" for k
  proof -
    from that obtain v where "(k, v) \<in> set (states c)"
      by (auto simp: sorted_names_def)
    with keyed_by_name_member [OF assms this] show ?thesis by simp
  qed
  then show ?thesis
    by (simp add: snapshot_def comp_def map_idI)
qed

lemma snapshot_set:
  assumes "keyed_by_name (states c)"
  shows "set (States (snapshot c w)) = snd ` set (states c)"
proof -
  have "states_at (states c) ` fst ` set (states c) = snd ` set (states c)"
    using keyed_by_name_member [OF assms] by (force simp: image_iff)
  then show ?thesis
    by (simp add: snapshot_def sorted_names_def)
qed

lemma snapshot_length: "length (States (snapshot c w)) = length (states c)"
  by (simp add: snapshot_def sorted_names_def)

lemma sorted_names_strict:
  "distinct (map fst (states c)) \<Longrightarrow> sorted_wrt (<) (sorted_names c)"
  by (simp add: sorted_names_def strict_sorted_iff)

lemma ex_checkpoint_keyed: "keyed_by_name (states ex_checkpoint)"
  by (simp add: keyed_by_name_def ex_checkpoint_def ex_sys_def ex_app_def)

lemma ex_snapshot:
  "snapshot ex_checkpoint ex_disk = \<lparr>UpdateTime = 1000, States = [ex_app, ex_sys]\<rparr>"
  by (simp add: snapshot_def sorted_names_def states_at_def ex_checkpoint_def ex_disk_def)

subsection \<open>The order of a snapshot\<close>

text \<open>Claim C7. The snapshot that \<^verbatim>\<open>flush\<close> builds from a table lists its entries by
  name in strictly ascending order, the order of \<^verbatim>\<open>sort.Strings\<close> (byte-wise
  lexicographic), and a flush that succeeds leaves in the target file the marshalling of
  exactly this snapshot. The hypothesis says that the table is a map keyed by the names
  of its entries, which holds for every table the package builds: see
  \<open>keyed_by_name_fold\<close> for \<^verbatim>\<open>NewCheckpoint\<close> and \<open>run_loop_keyed\<close> for the worker.\<close>
theorem snapshot_sorted_by_name:
  assumes "keyed_by_name (states c)"
  shows "sorted_wrt (<) (map Name (States (snapshot c w)))
    \<and> (\<forall>ft c1 w1. flush cd ft c w = (None, c1, w1) \<longrightarrow>
          (\<exists>d. Marshal cd (snapshot c w) = Some d \<and> files w1 (file c) = Some d))"
proof -
  have "sorted_wrt (<) (map Name (States (snapshot c w)))"
    using assms by (simp add: snapshot_names sorted_names_strict keyed_by_name_def)
  moreover have "\<exists>d. Marshal cd (snapshot c w) = Some d \<and> files w1 (file c) = Some d"
    if "flush cd ft c w = (None, c1, w1)" for ft c1 w1
    using flush_succeeded [OF that] by blast
  ultimately show ?thesis by blast
qed

theorem snapshot_sorted_by_name_witness:
  "keyed_by_name (states ex_checkpoint)
   \<and> map Name (States (snapshot ex_checkpoint ex_disk)) = [''App'', ''Sys'']
   \<and> sorted_wrt (<) [''App'', ''Sys'']"
proof -
  have n: "map Name (States (snapshot ex_checkpoint ex_disk)) = [''App'', ''Sys'']"
    by (simp add: ex_snapshot ex_app_def ex_sys_def)
  from snapshot_sorted_by_name [OF ex_checkpoint_keyed, of ex_disk plain_codec] n
    ex_checkpoint_keyed
  show ?thesis by simp
qed

subsection \<open>Loading at construction\<close>


text \<open>Claim C10. When the file exists with no contents, and \<^verbatim>\<open>yaml.Unmarshal\<close> of
  no bytes leaves the snapshot at its zero value without an error (the hypothesis on
  the codec), \<^verbatim>\<open>NewCheckpoint\<close> succeeds with an empty table, and returns what it
  returns when the file is missing.\<close>
theorem NewCheckpoint_empty_file:
  assumes "files w f = Some []" and "Unmarshal cd [] = Some zero_PersistedState"
  shows "\<exists>c tm. NewCheckpoint cd False w f mu iv = Inr (c, tm) \<and> states c = []
           \<and> NewCheckpoint cd False (w\<lparr>files := (files w)(f := None)\<rparr>) f mu iv = Inr (c, tm)"
  using assms by (simp add: NewCheckpoint_cases Let_def zero_PersistedState_def)

lemma le_bytes_numeral:
  "le_bytes (numeral k) n = char_of n # le_bytes (pred_numeral k) (n div 256)"
proof -
  have "numeral k = Suc (pred_numeral k)"
    by (rule numeral_eq_Suc)
  then show ?thesis
    by (simp only: le_bytes.simps)
qed



lemma empty_file_parses: "Unmarshal plain_codec [] = Some zero_PersistedState"
  by (simp add: plain_codec_def)


theorem NewCheckpoint_empty_file_witness:
  "files (ex_world\<lparr>files := [''cp.yml'' \<mapsto> []]\<rparr>) ''cp.yml'' = Some []
   \<and> Unmarshal plain_codec [] = Some zero_PersistedState
   \<and> (\<exists>c tm. NewCheckpoint plain_codec False (ex_world\<lparr>files := [''cp.yml'' \<mapsto> []]\<rparr>)
                ''cp.yml'' 5 Second = Inr (c, tm) \<and> states c = [])"
proof -
  have h: "files (ex_world\<lparr>files := [''cp.yml'' \<mapsto> []]\<rparr>) ''cp.yml'' = Some []"
    by simp
  from NewCheckpoint_empty_file [OF h empty_file_parses, of 5 Second]
  have "\<exists>c tm. NewCheckpoint plain_codec False (ex_world\<lparr>files := [''cp.yml'' \<mapsto> []]\<rparr>)
                ''cp.yml'' 5 Second = Inr (c, tm) \<and> states c = []"
    by blast
  with h empty_file_parses show ?thesis by (intro conjI)
qed

subsection \<open>Flush, then read\<close>

text \<open>Claim C2. After a flush that succeeds, \<^verbatim>\<open>read\<close> on the resulting file system
  returns a snapshot with exactly the entries of the table that was flushed, and
  \<^verbatim>\<open>NewCheckpoint\<close> on that file builds a table equal to it, as a set of entries and
  as a map. The codec is a parameter: the hypothesis on it is that the bytes it
  marshalled for this snapshot unmarshal to this snapshot.\<close>
theorem flush_then_read_roundtrip:
  assumes keyed: "keyed_by_name (states c)"
    and fl: "flush cd ft c w = (None, c1, w1)"
    and codec: "\<And>d. Marshal cd (snapshot c w) = Some d \<Longrightarrow>
                  Unmarshal cd d = Some (snapshot c w)"
  shows "\<exists>ps. read cd False c1 w1 = Inr (Some ps)
           \<and> set (States ps) = snd ` set (states c)
           \<and> length (States ps) = length (states c)
           \<and> (\<exists>c2 tm2. NewCheckpoint cd False w1 (file c) mu iv = Inr (c2, tm2)
                  \<and> set (states c2) = set (states c)
                  \<and> map_of (states c2) = map_of (states c))"
proof -
  let ?ps = "snapshot c w"
  from flush_succeeded [OF fl] obtain d
    where d: "Marshal cd ?ps = Some d" "files w1 (file c) = Some d" by blast
  from codec [OF d(1)] have u: "Unmarshal cd d = Some ?ps" .
  have fc: "file c1 = file c" using flush_checkpoint [OF fl] by simp
  have rd: "read cd False c1 w1 = Inr (Some ?ps)"
    by (simp add: read_cases fc d(2) u)
  let ?m = "fold states_put (States ?ps) []"
  have k2: "keyed_by_name ?m"
    by (rule keyed_by_name_fold) (rule keyed_by_name_Nil)
  have dist: "distinct (map Name (States ?ps))"
    using keyed by (simp add: snapshot_names sorted_names_def keyed_by_name_def)
  have "set ?m = (\<lambda>s. (Name s, s)) ` set (States ?ps)"
    by (rule keyed_set_eq [OF k2 dist]) (simp add: map_of_fold_states_put)
  also have "\<dots> = (\<lambda>s. (Name s, s)) ` snd ` set (states c)"
    by (simp add: snapshot_set [OF keyed])
  also have "\<dots> = set (states c)"
    using keyed_by_name_member [OF keyed] by (force simp: image_iff)
  finally have sets: "set ?m = set (states c)" .
  have maps: "map_of ?m = map_of (states c)"
    using sets k2 keyed map_of_inject_set [of ?m "states c"]
    by (simp add: keyed_by_name_def)
  have "\<exists>c2 tm2. NewCheckpoint cd False w1 (file c) mu iv = Inr (c2, tm2)
      \<and> states c2 = ?m"
    by (simp add: NewCheckpoint_cases Let_def d(2) u)
  with sets maps
  have new: "\<exists>c2 tm2. NewCheckpoint cd False w1 (file c) mu iv = Inr (c2, tm2)
                  \<and> set (states c2) = set (states c)
                  \<and> map_of (states c2) = map_of (states c)"
    by auto
  from rd snapshot_set [OF keyed, of w] snapshot_length [of c w] new
  show ?thesis by blast
qed

lemma ex_snapshot_marshal:
  "Marshal plain_codec \<lparr>UpdateTime = 1000, States = [ex_app, ex_sys]\<rparr>
     = Some (le_bytes 8 1000 @ enc_state ex_app @ enc_state ex_sys)"
  by (simp add: plain_codec_def encodable_def ex_app_def ex_sys_def)

lemma ex_snapshot_unmarshal:
  "Unmarshal plain_codec (le_bytes 8 1000 @ enc_state ex_app @ enc_state ex_sys)
     = Some \<lparr>UpdateTime = 1000, States = [ex_app, ex_sys]\<rparr>"
  by (simp add: plain_codec_def enc_state_def ex_app_def ex_sys_def le_bytes_numeral)

theorem flush_then_read_roundtrip_witness:
  "keyed_by_name (states ex_checkpoint)
   \<and> (case flush plain_codec NoFault ex_checkpoint ex_disk of
         (r, c1, w1) \<Rightarrow>
           r = None
           \<and> read plain_codec False c1 w1
               = Inr (Some \<lparr>UpdateTime = 1000, States = [ex_app, ex_sys]\<rparr>)
           \<and> (\<exists>c2 tm2. NewCheckpoint plain_codec False w1 ''cp.yml'' 5 Second = Inr (c2, tm2)
                  \<and> set (states c2) = {(''App'', ex_app), (''Sys'', ex_sys)}))"
proof -
  obtain r c1 w1 where fl: "flush plain_codec NoFault ex_checkpoint ex_disk = (r, c1, w1)"
    by (cases "flush plain_codec NoFault ex_checkpoint ex_disk") auto
  from flush_NoFault_succeeds [of plain_codec ex_checkpoint ex_disk] fl
  have r: "r = None"
    by (simp add: ex_snapshot ex_snapshot_marshal)
  have codec: "Unmarshal plain_codec d = Some (snapshot ex_checkpoint ex_disk)"
    if "Marshal plain_codec (snapshot ex_checkpoint ex_disk) = Some d" for d
    using that by (auto simp: ex_snapshot ex_snapshot_marshal ex_snapshot_unmarshal)
  from flush_then_read_roundtrip [OF ex_checkpoint_keyed fl [unfolded r] codec, of 5 Second]
  obtain ps c2 tm2 where
    rd: "read plain_codec False c1 w1 = Inr (Some ps)"
    and nc: "NewCheckpoint plain_codec False w1 (file ex_checkpoint) 5 Second = Inr (c2, tm2)"
    and st: "set (states c2) = set (states ex_checkpoint)"
    by blast
  from flush_succeeded [OF fl [unfolded r]] flush_checkpoint [OF fl] rd
  have ps: "ps = \<lparr>UpdateTime = 1000, States = [ex_app, ex_sys]\<rparr>"
    by (auto simp: read_cases ex_snapshot ex_snapshot_marshal ex_snapshot_unmarshal)
  have f: "file ex_checkpoint = ''cp.yml''"
    "set (states ex_checkpoint) = {(''App'', ex_app), (''Sys'', ex_sys)}"
    by (auto simp: ex_checkpoint_def)
  from fl r rd ps nc st f ex_checkpoint_keyed show ?thesis
    by auto
qed

subsection \<open>The worker's loop\<close>

lemma run_iter_effect:
  assumes "run_iter cd ft ev (c, tm, w) = (left, c1, tm1, w1)"
  shows "(left \<longleftrightarrow> ev = Done)
    \<and> states c1 = (case ev of Save s \<Rightarrow> states_put s (states c) | _ \<Rightarrow> states c)
    \<and> file c1 = file c \<and> maxUpdates c1 = maxUpdates c \<and> flushInterval c1 = flushInterval c
    \<and> wg c1 = wg c \<and> once_done c1 = once_done c \<and> done_closed c1 = done_closed c"
proof (cases "select_case ev c tm")
  case (fields k c2 tm2)
  have sc: "states c2 = (case ev of Save s \<Rightarrow> states_put s (states c) | _ \<Rightarrow> states c)
    \<and> file c2 = file c \<and> maxUpdates c2 = maxUpdates c \<and> flushInterval c2 = flushInterval c
    \<and> wg c2 = wg c \<and> once_done c2 = once_done c \<and> done_closed c2 = done_closed c
    \<and> (k = BreakLoop \<longleftrightarrow> ev = Done)"
    using fields by (cases ev) (auto simp: select_case_def Let_def split: if_splits)
  show ?thesis
  proof (cases k)
    case BreakLoop
    with assms fields sc show ?thesis by (simp add: run_iter_def)
  next
    case ContinueLoop
    with assms fields sc show ?thesis by (simp add: run_iter_def)
  next
    case FallThrough
    obtain ok c3 w3 where p: "persist cd ft c2 w = (ok, c3, w3)"
      by (cases "persist cd ft c2 w") auto
    from assms fields FallThrough p persist_checkpoint [OF p] sc
    show ?thesis by (simp add: run_iter_def)
  qed
qed

lemma run_iter_keyed:
  assumes "keyed_by_name (states c)" and "run_iter cd ft ev (c, tm, w) = (left, c1, tm1, w1)"
  shows "keyed_by_name (states c1)"
  using run_iter_effect [OF assms(2)] assms(1)
  by (cases ev) (simp_all add: keyed_by_name_put)

lemma run_loop_keyed:
  "keyed_by_name (states c) \<Longrightarrow> run_loop cd es (c, tm, w) = (left, c1, tm1, w1) \<Longrightarrow>
     keyed_by_name (states c1)"
proof (induction es arbitrary: c tm w)
  case Nil
  then show ?case by simp
next
  case (Cons e es)
  obtain b c2 tm2 w2 where it: "run_iter cd (snd e) (fst e) (c, tm, w) = (b, c2, tm2, w2)"
    by (cases "run_iter cd (snd e) (fst e) (c, tm, w)") auto
  note k2 = run_iter_keyed [OF Cons.prems(1) it]
  show ?case
  proof (cases b)
    case True
    with Cons.prems(2) it k2 show ?thesis by simp
  next
    case False
    with Cons.prems(2) it have "run_loop cd es (c2, tm2, w2) = (left, c1, tm1, w1)" by simp
    from Cons.IH [OF k2 this] show ?thesis .
  qed
qed

lemma run_loop_other_names:
  "\<forall>e \<in> set es. \<forall>s. fst e = Save s \<longrightarrow> Name s \<noteq> n \<Longrightarrow>
   run_loop cd es (c, tm, w) = (left, c1, tm1, w1) \<Longrightarrow>
   map_of (states c1) n = map_of (states c) n"
proof (induction es arbitrary: c tm w)
  case Nil
  then show ?case by simp
next
  case (Cons e es)
  obtain b c2 tm2 w2 where it: "run_iter cd (snd e) (fst e) (c, tm, w) = (b, c2, tm2, w2)"
    by (cases "run_iter cd (snd e) (fst e) (c, tm, w)") auto
  have same: "map_of (states c2) n = map_of (states c) n"
    using run_iter_effect [OF it] Cons.prems(1)
    by (cases "fst e") (auto simp: map_of_states_put)
  show ?case
  proof (cases b)
    case True
    with Cons.prems(2) it same show ?thesis by simp
  next
    case False
    with Cons.prems(2) it have "run_loop cd es (c2, tm2, w2) = (left, c1, tm1, w1)" by simp
    with Cons.IH [of c2 tm2 w2] Cons.prems(1) same show ?thesis by simp
  qed
qed

lemma run_loop_append:
  "\<forall>e \<in> set es1. fst e \<noteq> Done \<Longrightarrow>
   run_loop cd (es1 @ es2) s = run_loop cd es2 (snd (run_loop cd es1 s))
   \<and> \<not> fst (run_loop cd es1 s)"
proof (induction es1 arbitrary: s)
  case Nil
  show ?case by simp
next
  case (Cons e es1)
  obtain c tm w where s: "s = (c, tm, w)" by (cases s) auto
  obtain b c2 tm2 w2 where it: "run_iter cd (snd e) (fst e) (c, tm, w) = (b, c2, tm2, w2)"
    by (cases "run_iter cd (snd e) (fst e) (c, tm, w)") auto
  from run_iter_effect [OF it] Cons.prems have nb: "\<not> b" by simp
  from Cons.IH [of "(c2, tm2, w2)"] Cons.prems it nb show ?case
    by (simp add: s)
qed

lemma update_fresh: "k \<notin> fst ` set m \<Longrightarrow> AList.update k v m = m @ [(k, v)]"
  by (induction m) auto

lemma fold_update_distinct:
  "distinct (map fst (acc @ xs)) \<Longrightarrow>
   fold (\<lambda>kv copy. AList.update (fst kv) (snd kv) copy) xs acc = acc @ xs"
proof (induction xs arbitrary: acc)
  case Nil
  show ?case by simp
next
  case (Cons x xs)
  from Cons.prems have fresh: "fst x \<notin> fst ` set acc" by auto
  from Cons.prems have "distinct (map fst ((acc @ [x]) @ xs))" by simp
  from Cons.IH [OF this] show ?case
    by (simp add: update_fresh [OF fresh])
qed

lemma States_copy_keyed: "keyed_by_name (states c) \<Longrightarrow> States_copy c = states c"
  using fold_update_distinct [of "[]" "states c"]
  by (simp add: States_copy_def keyed_by_name_def)

subsection \<open>The last update of a name\<close>

text \<open>Claim C3. Let the worker take a sequence of \<^verbatim>\<open>select\<close> cases in which an
  update \<^verbatim>\<open>Persist(name, rn, ts)\<close> is received (no \<open>Done\<close> before it) and no later
  update has the same name. Then \<^verbatim>\<open>States\<close> returns, under \<open>name\<close>, exactly the entry
  with the record number and the timestamp of that update, whatever was stored under
  that name before and whatever faults the flushes met. The copy that \<^verbatim>\<open>States\<close>
  returns has no key twice and every entry under its own name, and a name that no
  update of the sequence carries keeps the entry it had.\<close>
theorem last_update_wins:
  assumes keyed: "keyed_by_name (states c)"
    and before: "\<forall>e \<in> set es1. fst e \<noteq> Done"
    and after: "\<forall>e \<in> set es2. \<forall>s. fst e = Save s \<longrightarrow> Name s \<noteq> name"
    and run: "run_loop cd (es1 @ (Persist name rn ts, ft) # es2) (c, tm, w) = (left, c', tm', w')"
  shows "map_of (States_copy c') name
           = Some \<lparr>Name = name, RecordNumber = rn, Timestamp = ts\<rparr>
    \<and> keyed_by_name (States_copy c')
    \<and> (\<forall>n. (\<forall>e \<in> set (es1 @ (Persist name rn ts, ft) # es2).
                \<forall>s. fst e = Save s \<longrightarrow> Name s \<noteq> n) \<longrightarrow>
            map_of (States_copy c') n = map_of (states c) n)"
proof -
  let ?s = "\<lparr>Name = name, RecordNumber = rn, Timestamp = ts\<rparr>"
  have k': "keyed_by_name (states c')"
    by (rule run_loop_keyed [OF keyed run])
  then have copy: "States_copy c' = states c'"
    by (rule States_copy_keyed)
  obtain c1 tm1 w1 where s1: "snd (run_loop cd es1 (c, tm, w)) = (c1, tm1, w1)"
    by (cases "snd (run_loop cd es1 (c, tm, w))") auto
  from run_loop_append [OF before, of cd "(Persist name rn ts, ft) # es2" "(c, tm, w)"] run s1
  have run1: "run_loop cd ((Save ?s, ft) # es2) (c1, tm1, w1) = (left, c', tm', w')"
    by (simp add: Persist_def)
  obtain b c2 tm2 w2 where it: "run_iter cd ft (Save ?s) (c1, tm1, w1) = (b, c2, tm2, w2)"
    by (cases "run_iter cd ft (Save ?s) (c1, tm1, w1)") auto
  from run_iter_effect [OF it]
  have nb: "\<not> b" and st: "states c2 = states_put ?s (states c1)" by simp_all
  from run1 it nb have run2: "run_loop cd es2 (c2, tm2, w2) = (left, c', tm', w')" by simp
  have "map_of (states c') name = map_of (states c2) name"
    by (rule run_loop_other_names [OF after run2])
  also have "\<dots> = Some ?s"
    by (simp add: st map_of_states_put)
  finally have last: "map_of (States_copy c') name = Some ?s"
    by (simp add: copy)
  have others: "map_of (States_copy c') n = map_of (states c) n"
    if "\<forall>e \<in> set (es1 @ (Persist name rn ts, ft) # es2). \<forall>s. fst e = Save s \<longrightarrow> Name s \<noteq> n"
    for n
    using run_loop_other_names [OF that run] by (simp add: copy)
  from last k' others show ?thesis
    by (simp add: copy)
qed

theorem last_update_wins_witness:
  "keyed_by_name (states ex_checkpoint)
   \<and> (case run_loop plain_codec
            ([(Persist ''App'' 11 8, NoFault)] @ (Persist ''App'' 12 9, RenameFails)
               # [(Persist ''Sys'' 301 9, NoFault), (TimerC, CreateFails)])
            (ex_checkpoint, time_NewTimer Second, ex_disk) of
         (left, c', tm', w') \<Rightarrow>
           map_of (States_copy c') ''App''
             = Some \<lparr>Name = ''App'', RecordNumber = 12, Timestamp = 9\<rparr>)"
proof -
  let ?es1 = "[(Persist ''App'' 11 8, NoFault)]"
  let ?es2 = "[(Persist ''Sys'' 301 9, NoFault), (TimerC, CreateFails)]"
  have before: "\<forall>e \<in> set ?es1. fst e \<noteq> Done"
    by (simp add: Persist_def)
  have after: "\<forall>e \<in> set ?es2. \<forall>s. fst e = Save s \<longrightarrow> Name s \<noteq> ''App''"
    by (auto simp: Persist_def)
  obtain left c' tm' w' where run:
    "run_loop plain_codec (?es1 @ (Persist ''App'' 12 9, RenameFails) # ?es2)
       (ex_checkpoint, time_NewTimer Second, ex_disk) = (left, c', tm', w')"
    by (cases "run_loop plain_codec (?es1 @ (Persist ''App'' 12 9, RenameFails) # ?es2)
       (ex_checkpoint, time_NewTimer Second, ex_disk)") auto
  from last_update_wins [OF ex_checkpoint_keyed before after run]
  have "map_of (States_copy c') ''App''
      = Some \<lparr>Name = ''App'', RecordNumber = 12, Timestamp = 9\<rparr>"
    by blast
  with ex_checkpoint_keyed run show ?thesis
    by (simp del: run_loop.simps append.simps)
qed

lemma run_loop_until_Done:
  "run_loop cd (es @ [(Done, ft)]) s = (True, snd (run_loop cd (es @ [(Done, ft)]) s))"
proof (induction es arbitrary: s)
  case Nil
  obtain c tm w where s: "s = (c, tm, w)" by (cases s) auto
  show ?case by (simp add: s run_iter_def select_case_def)
next
  case (Cons e es)
  obtain c tm w where s: "s = (c, tm, w)" by (cases s) auto
  obtain b c2 tm2 w2 where it: "run_iter cd (snd e) (fst e) (c, tm, w) = (b, c2, tm2, w2)"
    by (cases "run_iter cd (snd e) (fst e) (c, tm, w)") auto
  show ?case
  proof (cases b)
    case True
    with it show ?thesis by (simp add: s)
  next
    case False
    with it Cons.IH [of "(c2, tm2, w2)"] show ?thesis by (simp add: s)
  qed
qed

lemma run_loop_checkpoint:
  "run_loop cd es (c, tm, w) = (left, c1, tm1, w1) \<Longrightarrow>
     file c1 = file c \<and> maxUpdates c1 = maxUpdates c \<and> flushInterval c1 = flushInterval c
     \<and> wg c1 = wg c \<and> once_done c1 = once_done c \<and> done_closed c1 = done_closed c"
proof (induction es arbitrary: c tm w)
  case Nil
  then show ?case by simp
next
  case (Cons e es)
  obtain b c2 tm2 w2 where it: "run_iter cd (snd e) (fst e) (c, tm, w) = (b, c2, tm2, w2)"
    by (cases "run_iter cd (snd e) (fst e) (c, tm, w)") auto
  note eff = run_iter_effect [OF it]
  show ?case
  proof (cases b)
    case True
    with Cons.prems it eff show ?thesis by simp
  next
    case False
    with Cons.prems it have "run_loop cd es (c2, tm2, w2) = (left, c1, tm1, w1)" by simp
    from Cons.IH [OF this] eff show ?thesis by simp
  qed
qed

subsection \<open>Shutdown\<close>

text \<open>Claim C5. \<^verbatim>\<open>Shutdown\<close> returns, with \<^verbatim>\<open>once\<close> done, and any further call
  returns the same checkpoint, timer and world: it flushes nothing and changes nothing.
  When it is the first call and the worker runs, the channel \<^verbatim>\<open>done\<close> is closed, the
  worker has left its loop, called \<^verbatim>\<open>persist\<close> one last time on the state in which it
  left the loop, stopped the timer and called \<^verbatim>\<open>wg.Done\<close>: that last \<^verbatim>\<open>persist\<close>
  touches the file system exactly when updates are pending. The hypothesis is that
  the wait group counts at most the one worker that \<^verbatim>\<open>NewCheckpoint\<close> starts.\<close>
theorem Shutdown_once:
  assumes one: "wg c \<le> 1"
  shows "\<exists>c1 tm1 w1.
      Shutdown cd pending ft (c, tm, w) = Some (c1, tm1, w1)
      \<and> once_done c1
      \<and> (\<forall>pending' ft'. Shutdown cd pending' ft' (c1, tm1, w1) = Some (c1, tm1, w1))
      \<and> (\<not> once_done c \<and> wg c = 1 \<longrightarrow>
            done_closed c1 \<and> wg c1 = 0 \<and> \<not> armed tm1
            \<and> (case snd (run_loop cd (pending @ [(Done, NoFault)])
                           (c\<lparr>done_closed := True\<rparr>, tm, w)) of
                 (c0, tm0, w0) \<Rightarrow>
                   (\<exists>ok c2. persist cd ft c0 w0 = (ok, c2, w1))
                   \<and> (numUpdates c0 = 0 \<longrightarrow> w1 = w0)
                   \<and> (numUpdates c0 \<noteq> 0 \<longrightarrow> fs_trace w1 \<noteq> fs_trace w0)))"
proof -
  consider (called) "once_done c" | (idle) "\<not> once_done c" "wg c = 0"
    | (running) "\<not> once_done c" "wg c = 1"
    using one by (cases "wg c = 0") auto
  then show ?thesis
  proof cases
    case called
    then show ?thesis by (simp add: Shutdown_def)
  next
    case idle
    then show ?thesis by (simp add: Shutdown_def)
  next
    case running
    let ?s = "(c\<lparr>done_closed := True\<rparr>, tm, w)"
    let ?es = "pending @ [(Done, NoFault)]"
    obtain c0 tm0 w0 where s0: "snd (run_loop cd ?es ?s) = (c0, tm0, w0)"
      by (cases "snd (run_loop cd ?es ?s)") auto
    from run_loop_until_Done [of cd pending NoFault ?s] s0
    have loop: "run_loop cd ?es ?s = (True, c0, tm0, w0)" by simp
    note c0 = run_loop_checkpoint [OF loop]
    obtain ok c2 w2 where p: "persist cd ft c0 w0 = (ok, c2, w2)"
      by (cases "persist cd ft c0 w0") auto
    note c2 = persist_checkpoint [OF p]
    let ?c1 = "c2\<lparr>wg := wg c2 - 1, once_done := True\<rparr>"
    have sh: "Shutdown cd pending ft (c, tm, w) = Some (?c1, timer_Stop tm0, w2)"
      using running loop p c0 c2 by (simp add: Shutdown_def run_from_def run_exit_def)
    have again: "Shutdown cd pending' ft' (?c1, timer_Stop tm0, w2)
        = Some (?c1, timer_Stop tm0, w2)" for pending' ft'
      by (simp add: Shutdown_def)
    have clean: "w2 = w0" if "numUpdates c0 = 0"
      using persist_clean [OF that, of cd ft w0] p by simp
    have dirty: "fs_trace w2 \<noteq> fs_trace w0" if "numUpdates c0 \<noteq> 0"
    proof -
      obtain r c3 w3 where fl: "flush cd ft c0 w0 = (r, c3, w3)"
        by (cases "flush cd ft c0 w0") auto
      from flush_traced [OF fl] have "fs_trace w3 \<noteq> fs_trace w0" by auto
      with that fl p show ?thesis
        by (cases r) (auto simp: persist_def persist_logs_only)
    qed
    from sh again c0 c2 p clean dirty s0 running show ?thesis
      by (auto simp: timer_Stop_def)
  qed
qed

theorem Shutdown_once_witness:
  "wg ex_checkpoint \<le> 1
   \<and> \<not> once_done ex_checkpoint \<and> wg ex_checkpoint = 1
   \<and> (\<exists>c1 tm1 w1.
         Shutdown plain_codec [] NoFault (ex_checkpoint, time_NewTimer Second, ex_disk)
           = Some (c1, tm1, w1)
         \<and> Shutdown plain_codec [(TimerC, NoFault)] NoFault (c1, tm1, w1) = Some (c1, tm1, w1)
         \<and> once_done c1 \<and> wg c1 = 0 \<and> fs_trace w1 \<noteq> [])"
proof -
  have one: "wg ex_checkpoint \<le> 1" and live: "\<not> once_done ex_checkpoint \<and> wg ex_checkpoint = 1"
    by (simp_all add: ex_checkpoint_def)
  have loop: "snd (run_loop plain_codec ([] @ [(Done, NoFault)])
       (ex_checkpoint\<lparr>done_closed := True\<rparr>, time_NewTimer Second, ex_disk))
     = (ex_checkpoint\<lparr>done_closed := True\<rparr>, time_NewTimer Second, ex_disk)"
    by (simp add: run_iter_def select_case_def)
  have dirty: "numUpdates (ex_checkpoint\<lparr>done_closed := True\<rparr>) \<noteq> 0"
    "fs_trace ex_disk = []"
    by (simp_all add: ex_checkpoint_def ex_disk_def)
  from Shutdown_once [OF one, of plain_codec "[]" NoFault "time_NewTimer Second" ex_disk]
    live loop dirty
  have "\<exists>c1 tm1 w1.
         Shutdown plain_codec [] NoFault (ex_checkpoint, time_NewTimer Second, ex_disk)
           = Some (c1, tm1, w1)
         \<and> Shutdown plain_codec [(TimerC, NoFault)] NoFault (c1, tm1, w1) = Some (c1, tm1, w1)
         \<and> once_done c1 \<and> wg c1 = 0 \<and> fs_trace w1 \<noteq> []"
    by (auto simp del: run_loop.simps append.simps)
  with one live show ?thesis by blast
qed

subsection \<open>The counter stays in range\<close>

text \<open>From \<^verbatim>\<open>NewCheckpoint\<close> on, \<open>numUpdates\<close> is at least zero and at most the number of
  passes of the loop, so it stays below the largest \<^verbatim>\<open>int\<close> in every run
  of fewer than \<open>2 ^ 63 - 1\<close> passes.\<close>

lemma persist_numUpdates:
  "persist cd ft c w = (ok, c1, w1) \<Longrightarrow> numUpdates c1 = numUpdates c \<or> numUpdates c1 = 0"
  by (cases "flush cd ft c w")
     (auto simp: persist_def split: if_splits option.splits dest: flush_checkpoint)

lemma run_iter_numUpdates_bound:
  assumes lo: "0 \<le> sint (numUpdates c)" and hi: "sint (numUpdates c) \<le> n"
    and room: "n < 2 ^ 63 - 1"
    and it: "run_iter cd ft ev (c, tm, w) = (left, c1, tm1, w1)"
  shows "0 \<le> sint (numUpdates c1) \<and> sint (numUpdates c1) \<le> n + 1"
proof -
  obtain k c2 tm2 where sc: "select_case ev c tm = (k, c2, tm2)"
    by (cases "select_case ev c tm") auto
  have s: "sint (numUpdates c + 1) = sint (numUpdates c) + 1"
    using hi room by (intro sint_succ) simp
  have b2: "0 \<le> sint (numUpdates c2) \<and> sint (numUpdates c2) \<le> n + 1"
    using sc lo hi s by (cases ev) (auto simp: select_case_def Let_def split: if_splits)
  show ?thesis
  proof (cases k)
    case FallThrough
    obtain ok c3 w3 where p: "persist cd ft c2 w = (ok, c3, w3)"
      by (cases "persist cd ft c2 w") auto
    from it sc FallThrough p have "c1 = c3" by (simp add: run_iter_def)
    with persist_numUpdates [OF p] b2 lo hi show ?thesis by auto
  next
    case BreakLoop
    with it sc b2 show ?thesis by (simp add: run_iter_def)
  next
    case ContinueLoop
    with it sc b2 show ?thesis by (simp add: run_iter_def)
  qed
qed

lemma run_loop_numUpdates_bound:
  "0 \<le> sint (numUpdates c) \<Longrightarrow> sint (numUpdates c) \<le> n \<Longrightarrow>
   n + int (length es) < 2 ^ 63 \<Longrightarrow>
   run_loop cd es (c, tm, w) = (left, c1, tm1, w1) \<Longrightarrow>
   0 \<le> sint (numUpdates c1) \<and> sint (numUpdates c1) \<le> n + int (length es)"
proof (induction es arbitrary: c tm w n)
  case Nil
  then show ?case by simp
next
  case (Cons e es)
  obtain b c2 tm2 w2 where it: "run_iter cd (snd e) (fst e) (c, tm, w) = (b, c2, tm2, w2)"
    by (cases "run_iter cd (snd e) (fst e) (c, tm, w)") auto
  from Cons.prems(3) have room: "n < 2 ^ 63 - 1" by simp
  note b2 = run_iter_numUpdates_bound [OF Cons.prems(1,2) room it]
  show ?case
  proof (cases b)
    case True
    with Cons.prems(4) it b2 show ?thesis by auto
  next
    case False
    with Cons.prems(4) it have r: "run_loop cd es (c2, tm2, w2) = (left, c1, tm1, w1)" by simp
    from Cons.prems(3) have "n + 1 + int (length es) < 2 ^ 63" by simp
    from Cons.IH [OF _ _ this r] b2 show ?thesis by simp
  qed
qed

lemma NewCheckpoint_fresh:
  "NewCheckpoint cd rf w f mu iv = Inr (c, tm) \<Longrightarrow>
     numUpdates c = 0 \<and> keyed_by_name (states c) \<and> wg c = 1 \<and> \<not> once_done c
     \<and> \<not> done_closed c \<and> file c = f \<and> tm = time_NewTimer (flushInterval c)"
  by (auto simp: NewCheckpoint_cases Let_def keyed_by_name_Nil keyed_by_name_fold
        split: option.splits if_splits)

end
